theory Spec2Isabelle
  imports Main "HOL-Library.AList"
begin

section \<open>Kashgari \<open>SequenceProcessor\<close>: a shallow embedding\<close>

text \<open>
  The development follows \<^verbatim>\<open>kashgari/processors/sequence_processor.py\<close>.
  Tokens are Python \<^verbatim>\<open>str\<close> values (\<^typ>\<open>string\<close>), indices and counts are
  Python's unbounded integers (\<^typ>\<open>int\<close>).

  A Python \<^verbatim>\<open>dict\<close> keeps its keys in insertion order, and the source depends on that
  order twice (the sort of \<^verbatim>\<open>token2count.items()\<close> is stable with respect to it, and
  \<^verbatim>\<open>idx2vocab\<close> is rebuilt from \<^verbatim>\<open>vocab2idx.items()\<close>), so a dictionary is an
  association list: \<^verbatim>\<open>d[k]\<close> is \<^const>\<open>map_of\<close>, and \<^verbatim>\<open>d[k] = v\<close> is
  \<^const>\<open>AList.update\<close>, which overwrites the value of an existing key in place and
  appends a new key at the end.

  Exceptions are values of the type \<open>error\<close>; a method that mutates \<^verbatim>\<open>self\<close> returns
  the processor next to its result, so that a mutation made before a \<^verbatim>\<open>raise\<close> is kept.
  Calls to \<^verbatim>\<open>logging\<close> write to no field of the processor and are left out.
\<close>

subsection \<open>Dictionaries\<close>

type_synonym ('k, 'v) dict = "('k \<times> 'v) list"

text \<open>\<^verbatim>\<open>d.get(k, default)\<close>\<close>

definition dict_get :: "('k, 'v) dict \<Rightarrow> 'k \<Rightarrow> 'v \<Rightarrow> 'v" where
  "dict_get d k dflt = (case map_of d k of None \<Rightarrow> dflt | Some v \<Rightarrow> v)"

text \<open>
  \<^verbatim>\<open>dict(items)\<close>, \<^verbatim>\<open>collections.OrderedDict(items)\<close> and a dictionary display
  \<^verbatim>\<open>{k1: v1, ...}\<close>: the pairs are stored from left to right.
\<close>

definition dict_of_items :: "('k \<times> 'v) list \<Rightarrow> ('k, 'v) dict" where
  "dict_of_items items = fold (\<lambda>(k, v) d. AList.update k v d) items []"

subsection \<open>Errors and the processor state\<close>

datatype key = TokenKey string | IndexKey int

datatype error = KeyError key | ValueError | TypeError | IndexError

text \<open>
  The fields \<open>token_pad\<close>, \<open>token_unk\<close>, \<open>token_bos\<close>, \<open>token_eos\<close>, \<open>vocab2idx\<close> and
  \<open>idx2vocab\<close> are set by the initialiser of the base class \<^verbatim>\<open>ABCProcessor\<close> from the
  keyword arguments; the other fields are those of \<^verbatim>\<open>SequenceProcessor\<close>
  (\<open>initial_vocab_dic\<close> is \<^verbatim>\<open>_initial_vocab_dic\<close>, \<open>showed_seq_len_warning\<close> is
  \<^verbatim>\<open>_showed_seq_len_warning\<close>).
\<close>

record processor =
  token_pad :: string
  token_unk :: string
  token_bos :: string
  token_eos :: string
  vocab2idx :: "(string, int) dict"
  idx2vocab :: "(int, string) dict"
  build_in_vocab :: string
  min_count :: int
  allow_unk :: bool
  build_vocab_from_labels :: bool
  initial_vocab_dic :: "(string, int) dict"
  showed_seq_len_warning :: bool

subsection \<open>\<^verbatim>\<open>__init__\<close>\<close>

text \<open>
  \<^verbatim>\<open>super().__init__(**kwargs)\<close> runs first. The base class is not part of the source
  at hand, so the state it leaves is the parameter \<open>base\<close>: whatever it stored in any
  field (also in \<open>allow_unk\<close>, were the keyword argument to reach it) is the starting point
  of the assignments below.
\<close>

definition init :: "processor \<Rightarrow> string \<Rightarrow> int \<Rightarrow> bool \<Rightarrow> processor" where
  "init base build_in_vocab' min_count' build_vocab_from_labels' =
     (let self = base\<lparr>build_in_vocab := build_in_vocab'\<rparr>;
          self = self\<lparr>min_count := min_count'\<rparr>;
          self = self\<lparr>allow_unk := True\<rparr>;
          self = self\<lparr>build_vocab_from_labels := build_vocab_from_labels'\<rparr>;
          self =
            (if build_in_vocab' = ''text'' then
               self\<lparr>initial_vocab_dic :=
                 dict_of_items [(token_pad self, 0), (token_unk self, 1),
                                (token_bos self, 2), (token_eos self, 3)]\<rparr>
             else if build_in_vocab' = ''labeling'' then
               self\<lparr>initial_vocab_dic := dict_of_items [(token_pad self, 0)]\<rparr>
             else
               self\<lparr>initial_vocab_dic := dict_of_items []\<rparr>)
      in self\<lparr>showed_seq_len_warning := False\<rparr>)"

subsection \<open>\<^verbatim>\<open>build_vocab_generator\<close>\<close>

type_synonym corpus = "(string list \<times> string list) list"

text \<open>The inner loop: \<^verbatim>\<open>token2count[token] = token2count.get(token, 0) + 1\<close>.\<close>

fun count_target :: "(string, int) dict \<Rightarrow> string list \<Rightarrow> (string, int) dict" where
  "count_target token2count [] = token2count"
| "count_target token2count (token # target) =
     count_target (AList.update token (dict_get token2count token 0 + 1) token2count) target"

text \<open>The outer loop over the \<^verbatim>\<open>(sentence, label)\<close> pairs of the generator.\<close>

fun count_corpus :: "bool \<Rightarrow> (string, int) dict \<Rightarrow> corpus \<Rightarrow> (string, int) dict" where
  "count_corpus from_labels token2count [] = token2count"
| "count_corpus from_labels token2count ((sentence, label) # rest) =
     count_corpus from_labels
       (count_target token2count (if from_labels then label else sentence)) rest"

text \<open>
  \<^verbatim>\<open>sorted(token2count.items(), key=operator.itemgetter(1), reverse=True)\<close>: Python's
  sort is stable, and \<^verbatim>\<open>reverse=True\<close> keeps the original order of items with equal
  keys, so it is the stable sort by the negated count.
\<close>

definition sorted_by_count :: "(string \<times> int) list \<Rightarrow> (string \<times> int) list" where
  "sorted_by_count items = sort_key (\<lambda>item. - snd item) items"

text \<open>
  The loop that assigns the indices:
  \<^verbatim>\<open>if token not in vocab2idx and token_count >= self.min_count: vocab2idx[token] = len(vocab2idx)\<close>.
\<close>

fun add_tokens :: "int \<Rightarrow> (string, int) dict \<Rightarrow> (string \<times> int) list \<Rightarrow> (string, int) dict" where
  "add_tokens mc vocab [] = vocab"
| "add_tokens mc vocab ((token, token_count) # rest) =
     add_tokens mc
       (if map_of vocab token = None \<and> token_count \<ge> mc
        then AList.update token (int (length vocab)) vocab else vocab) rest"

text \<open>\<^verbatim>\<open>dict([(v, k) for k, v in self.vocab2idx.items()])\<close>\<close>

definition invert_dict :: "('k, 'v) dict \<Rightarrow> ('v, 'k) dict" where
  "invert_dict d = dict_of_items (map (\<lambda>(k, v). (v, k)) d)"

text \<open>
  The body of the method for a generator that can be iterated. The local \<^verbatim>\<open>vocab2idx\<close>
  is the very object \<^verbatim>\<open>self._initial_vocab_dic\<close>, which the loop therefore mutates in
  place: afterwards both fields hold the new dictionary.
\<close>

definition build_vocab :: "processor \<Rightarrow> corpus \<Rightarrow> processor" where
  "build_vocab self generator =
     (let vocab = initial_vocab_dic self;
          token2count = count_corpus (build_vocab_from_labels self) [] generator;
          sorted_token2count = sorted_by_count token2count;
          token2count = dict_of_items sorted_token2count;
          vocab = add_tokens (min_count self) vocab token2count
      in self\<lparr>initial_vocab_dic := vocab, vocab2idx := vocab, idx2vocab := invert_dict vocab\<rparr>)"

text \<open>
  The parameter is \<^verbatim>\<open>Optional[CorpusGenerator]\<close>: iterating \<^verbatim>\<open>None\<close> raises
  \<^verbatim>\<open>TypeError\<close> before any field is written. Nothing is done when \<^verbatim>\<open>self.vocab2idx\<close>
  is not empty.
\<close>

definition build_vocab_generator :: "processor \<Rightarrow> corpus option \<Rightarrow> error + processor" where
  "build_vocab_generator self generator =
     (if vocab2idx self = [] then
        (case generator of
           None \<Rightarrow> Inl TypeError
         | Some g \<Rightarrow> Inr (build_vocab self g))
      else Inr self)"

subsection \<open>\<^verbatim>\<open>transform\<close>\<close>

datatype transform_result =
  TokenIds "int list list"
| TokenIdsSegmentIds "int list list" "int list list"

text \<open>\<^verbatim>\<open>max(xs)\<close> raises \<^verbatim>\<open>ValueError\<close> on an empty list.\<close>

fun py_max :: "int list \<Rightarrow> error + int" where
  "py_max [] = Inl ValueError"
| "py_max (x # xs) = Inr (fold max xs x)"

text \<open>
  The first block of \<^verbatim>\<open>transform\<close>: the effective length. \<^verbatim>\<open>if max_position and ...\<close>
  tests the truth value of \<^verbatim>\<open>max_position\<close>, which is false for \<^verbatim>\<open>None\<close> and for 0.
  The lengths are those of the samples as given, before \<^verbatim>\<open>[BOS]\<close> and \<^verbatim>\<open>[EOS]\<close> are
  added.
\<close>

definition resolve_seq_length ::
  "processor \<Rightarrow> string list list \<Rightarrow> int option \<Rightarrow> int option \<Rightarrow> processor \<times> (error + int)" where
  "resolve_seq_length self samples seq_length max_position =
     (case seq_length of
        Some n \<Rightarrow> (self, Inr n)
      | None \<Rightarrow>
          (case py_max (map (\<lambda>i. int (length i)) samples) of
             Inl e \<Rightarrow> (self, Inl e)
           | Inr m \<Rightarrow>
               (let n = (case max_position of
                           None \<Rightarrow> m
                         | Some mp \<Rightarrow> if mp \<noteq> 0 \<and> m > mp then mp else m);
                    self = (if \<not> showed_seq_len_warning self
                            then self\<lparr>showed_seq_len_warning := True\<rparr> else self)
                in (self, Inr n))))"

text \<open>\<^verbatim>\<open>[self.vocab2idx[token] for token in seq]\<close>: the first missing key raises.\<close>

fun lookup_all :: "(string, int) dict \<Rightarrow> string list \<Rightarrow> error + int list" where
  "lookup_all vocab [] = Inr []"
| "lookup_all vocab (token # seq) =
     (case map_of vocab token of
        None \<Rightarrow> Inl (KeyError (TokenKey token))
      | Some i \<Rightarrow>
          (case lookup_all vocab seq of
             Inl e \<Rightarrow> Inl e
           | Inr is \<Rightarrow> Inr (i # is)))"

text \<open>The body of the loop \<^verbatim>\<open>for seq in samples\<close>.\<close>

definition numerize :: "processor \<Rightarrow> string list \<Rightarrow> error + int list" where
  "numerize self seq =
     (let seq = [token_bos self] @ seq @ [token_eos self] in
      if allow_unk self then
        (case map_of (vocab2idx self) (token_unk self) of
           None \<Rightarrow> Inl (KeyError (TokenKey (token_unk self)))
         | Some unk_index \<Rightarrow>
             Inr (map (\<lambda>token. dict_get (vocab2idx self) token unk_index) seq))
      else lookup_all (vocab2idx self) seq)"

fun numerize_samples :: "processor \<Rightarrow> string list list \<Rightarrow> error + int list list" where
  "numerize_samples self [] = Inr []"
| "numerize_samples self (seq # samples) =
     (case numerize self seq of
        Inl e \<Rightarrow> Inl e
      | Inr ids \<Rightarrow>
          (case numerize_samples self samples of
             Inl e \<Rightarrow> Inl e
           | Inr rest \<Rightarrow> Inr (ids # rest)))"

text \<open>
  Keras' \<^verbatim>\<open>pad_sequences(sequences, maxlen, padding='post', truncating='post')\<close> with
  \<^verbatim>\<open>maxlen\<close> given: an array of shape \<^verbatim>\<open>(len(sequences), maxlen)\<close> filled with the
  default value 0, whose row \<open>i\<close> starts with \<^verbatim>\<open>sequences[i][:maxlen]\<close>. A negative
  \<^verbatim>\<open>maxlen\<close> is refused by NumPy with \<^verbatim>\<open>ValueError\<close>. The array is a list of rows; the
  32-bit range of its entries is not modelled.
\<close>

definition pad_sequences :: "int list list \<Rightarrow> int \<Rightarrow> error + int list list" where
  "pad_sequences sequences maxlen =
     (if maxlen < 0 then Inl ValueError
      else Inr (map (\<lambda>s. take (nat maxlen) s @ replicate (nat maxlen - length s) 0) sequences))"

text \<open>\<^verbatim>\<open>np.zeros(token_ids.shape, dtype=np.int32)\<close>\<close>

definition zeros_like :: "int list list \<Rightarrow> int list list" where
  "zeros_like token_ids = map (\<lambda>row. replicate (length row) 0) token_ids"

definition transform ::
  "processor \<Rightarrow> string list list \<Rightarrow> int option \<Rightarrow> int option \<Rightarrow> bool
     \<Rightarrow> processor \<times> (error + transform_result)" where
  "transform self samples seq_length max_position segment =
     (case resolve_seq_length self samples seq_length max_position of
        (self, Inl e) \<Rightarrow> (self, Inl e)
      | (self, Inr n) \<Rightarrow>
          (case numerize_samples self samples of
             Inl e \<Rightarrow> (self, Inl e)
           | Inr numerized_samples \<Rightarrow>
               (case pad_sequences numerized_samples n of
                  Inl e \<Rightarrow> (self, Inl e)
                | Inr token_ids \<Rightarrow>
                    (self, Inr (if segment
                                then TokenIdsSegmentIds token_ids (zeros_like token_ids)
                                else TokenIds token_ids)))))"

subsection \<open>\<^verbatim>\<open>inverse_transform\<close>\<close>

text \<open>\<^verbatim>\<open>[self.idx2vocab[idx] for idx in seq]\<close>, written as a loop with \<^verbatim>\<open>append\<close>.\<close>

fun decode :: "(int, string) dict \<Rightarrow> int list \<Rightarrow> error + string list" where
  "decode i2v [] = Inr []"
| "decode i2v (idx # seq) =
     (case map_of i2v idx of
        None \<Rightarrow> Inl (KeyError (IndexKey idx))
      | Some token \<Rightarrow>
          (case decode i2v seq of
             Inl e \<Rightarrow> Inl e
           | Inr labels \<Rightarrow> Inr (token # labels)))"

text \<open>
  The slice \<^verbatim>\<open>xs[1:n]\<close>: a negative \<open>n\<close> counts from the end, and bounds beyond the
  list are clipped.
\<close>

definition slice_from_1 :: "'a list \<Rightarrow> int \<Rightarrow> 'a list" where
  "slice_from_1 xs n =
     (let stop = (if n < 0 then max 0 (int (length xs) + n) else n)
      in drop 1 (take (nat stop) xs))"

text \<open>\<^verbatim>\<open>lengths[index]\<close> for an index that \<^verbatim>\<open>enumerate\<close> produced (never negative).\<close>

definition list_get :: "'a list \<Rightarrow> nat \<Rightarrow> error + 'a" where
  "list_get xs i = (if i < length xs then Inr (xs ! i) else Inl IndexError)"

fun inverse_loop ::
  "(int, string) dict \<Rightarrow> int list option \<Rightarrow> nat \<Rightarrow> int list list \<Rightarrow> error + string list list" where
  "inverse_loop i2v lengths index [] = Inr []"
| "inverse_loop i2v lengths index (seq # labels) =
     (case decode i2v seq of
        Inl e \<Rightarrow> Inl e
      | Inr labels' \<Rightarrow>
          (case (case lengths of
                   Some ls \<Rightarrow>
                     (case list_get ls index of
                        Inl e \<Rightarrow> Inl e
                      | Inr n \<Rightarrow> Inr (slice_from_1 labels' n))
                 | None \<Rightarrow> Inr (butlast labels')) of
             Inl e \<Rightarrow> Inl e
           | Inr labels'' \<Rightarrow>
               (case inverse_loop i2v lengths (Suc index) labels of
                  Inl e \<Rightarrow> Inl e
                | Inr result \<Rightarrow> Inr (labels'' # result))))"

text \<open>The method assigns to no attribute of \<^verbatim>\<open>self\<close>: the processor is returned as it was.\<close>

definition inverse_transform ::
  "processor \<Rightarrow> int list list \<Rightarrow> int list option \<Rightarrow> processor \<times> (error + string list list)" where
  "inverse_transform self labels lengths =
     (self, inverse_loop (idx2vocab self) lengths 0 labels)"

subsection \<open>Notions used in the statements\<close>

text \<open>The sequence that \<open>numerize\<close> maps: the sample between BOS and EOS.\<close>

definition wrapped :: "processor \<Rightarrow> string list \<Rightarrow> string list" where
  "wrapped self seq = [token_bos self] @ seq @ [token_eos self]"

text \<open>The array of token ids in either form of the result of \<open>transform\<close>.\<close>

definition token_ids_of :: "transform_result \<Rightarrow> int list list" where
  "token_ids_of r = (case r of TokenIds ids \<Rightarrow> ids | TokenIdsSegmentIds ids _ \<Rightarrow> ids)"

text \<open>
  The expression of the round-trip property,
  \<^verbatim>\<open>inverse_transform(transform([T], seq_length=len(T)+2), lengths=[n])[0]\<close>,
  with the entry \<open>n\<close> of \<^verbatim>\<open>lengths\<close> left open.
\<close>

definition round_trip :: "processor \<Rightarrow> string list \<Rightarrow> int \<Rightarrow> error + string list" where
  "round_trip self T n =
     (case snd (transform self [T] (Some (int (length T) + 2)) None False) of
        Inl e \<Rightarrow> Inl e
      | Inr r \<Rightarrow>
          (case snd (inverse_transform self (token_ids_of r) (Some [n])) of
             Inl e \<Rightarrow> Inl e
           | Inr result \<Rightarrow> list_get result 0))"

text \<open>
  The tokens that \<open>build_vocab_generator\<close> counts, in the order of the pass over the
  corpus: the labels of every pair when \<open>build_vocab_from_labels\<close> is set, the
  sentences otherwise.
\<close>

definition counted_stream :: "bool \<Rightarrow> corpus \<Rightarrow> string list" where
  "counted_stream from_labels generator =
     concat (map (\<lambda>(sentence, label). if from_labels then label else sentence) generator)"

text \<open>The position at which \<open>x\<close> is first encountered in \<open>xs\<close>.\<close>

definition first_index :: "'a list \<Rightarrow> 'a \<Rightarrow> nat" where
  "first_index xs x = length (takeWhile (\<lambda>y. y \<noteq> x) xs)"

text \<open>
  The tokens that pass the test of \<open>add_tokens\<close> against the seed dictionary, in the
  order of the items.
\<close>

definition learned_tokens ::
  "int \<Rightarrow> (string, int) dict \<Rightarrow> (string \<times> int) list \<Rightarrow> string list" where
  "learned_tokens mc seed items =
     map fst (filter (\<lambda>(token, token_count). map_of seed token = None \<and> token_count \<ge> mc)
                items)"

subsection \<open>A worked corpus\<close>

text \<open>
  A base-class state with the usual reserved tokens and an empty vocabulary, the corpus
  of the end-to-end example, and the processor that the example arrives at.
\<close>

definition example_base :: processor where
  "example_base =
     \<lparr>token_pad = ''[PAD]'', token_unk = ''[UNK]'', token_bos = ''[CLS]'',
      token_eos = ''[SEP]'', vocab2idx = [], idx2vocab = [], build_in_vocab = [],
      min_count = 0, allow_unk = False, build_vocab_from_labels = False,
      initial_vocab_dic = [], showed_seq_len_warning = False\<rparr>"

definition example_corpus :: corpus where
  "example_corpus =
     [([''a'', ''b'', ''a''], [''O'', ''O'', ''O'']), ([''b'', ''b''], [''O'', ''O''])]"

definition example_processor :: processor where
  "example_processor =
     \<lparr>token_pad = ''[PAD]'', token_unk = ''[UNK]'', token_bos = ''[CLS]'',
      token_eos = ''[SEP]'',
      vocab2idx = [(''[PAD]'', 0), (''[UNK]'', 1), (''[CLS]'', 2), (''[SEP]'', 3),
                   (''b'', 4), (''a'', 5)],
      idx2vocab = [(0, ''[PAD]''), (1, ''[UNK]''), (2, ''[CLS]''), (3, ''[SEP]''),
                   (4, ''b''), (5, ''a'')],
      build_in_vocab = ''text'', min_count = 2, allow_unk = True,
      build_vocab_from_labels = False,
      initial_vocab_dic = [(''[PAD]'', 0), (''[UNK]'', 1), (''[CLS]'', 2), (''[SEP]'', 3),
                           (''b'', 4), (''a'', 5)],
      showed_seq_len_warning = False\<rparr>"

section \<open>Properties\<close>

subsection \<open>The constructor\<close>

lemma init_fields [simp]:
  "token_pad (init base biv mc fl) = token_pad base"
  "token_unk (init base biv mc fl) = token_unk base"
  "token_bos (init base biv mc fl) = token_bos base"
  "token_eos (init base biv mc fl) = token_eos base"
  "vocab2idx (init base biv mc fl) = vocab2idx base"
  "idx2vocab (init base biv mc fl) = idx2vocab base"
  "build_in_vocab (init base biv mc fl) = biv"
  "min_count (init base biv mc fl) = mc"
  "build_vocab_from_labels (init base biv mc fl) = fl"
  "showed_seq_len_warning (init base biv mc fl) = False"
  by (simp_all add: init_def Let_def)

lemma text_seed:
  assumes "distinct [token_pad base, token_unk base, token_bos base, token_eos base]"
  shows "initial_vocab_dic (init base ''text'' mc fl) =
     [(token_pad base, 0), (token_unk base, 1), (token_bos base, 2), (token_eos base, 3)]"
  using assms by (auto simp: init_def Let_def dict_of_items_def)

text \<open>
  Claim C9. Whatever the base-class initialiser stored from the keyword arguments, and
  whatever the three named arguments are, \<open>allow_unk\<close> is true once the constructor
  has run: the assignment \<^verbatim>\<open>self.allow_unk = True\<close> comes after the call of the base
  class and is unconditional.
\<close>

theorem init_allow_unk_always_true:
  "allow_unk (init base build_in_vocab' min_count' build_vocab_from_labels') = True"
  by (simp add: init_def Let_def)

subsection \<open>The worked corpus\<close>

lemma example_sorted_counts:
  "dict_of_items (sorted_by_count (count_corpus False [] example_corpus)) =
     [(''b'', 3), (''a'', 2)]"
  by (simp add: example_corpus_def dict_of_items_def sorted_by_count_def dict_get_def)

lemma example_build:
  "build_vocab (init example_base ''text'' 2 False) example_corpus = example_processor"
  by (simp add: build_vocab_def init_def example_base_def example_corpus_def
      example_processor_def dict_of_items_def sorted_by_count_def dict_get_def
      invert_dict_def Let_def)

lemma example_build_generator:
  "build_vocab_generator (init example_base ''text'' 2 False) (Some example_corpus) =
     Inr example_processor"
  by (simp add: build_vocab_generator_def example_build) (simp add: example_base_def)

text \<open>
  Claim C2. In mode \<^verbatim>\<open>"text"\<close> with \<^verbatim>\<open>min_count=2\<close>, for any reserved tokens that
  differ from one another and from \<^verbatim>\<open>"a"\<close> and \<^verbatim>\<open>"b"\<close>, and a vocabulary that the
  base class left empty: building from the example corpus returns a processor whose
  \<open>vocab2idx\<close> is exactly PAD:0, UNK:1, BOS:2, EOS:3, b:4, a:5 (in this insertion order),
  and \<^verbatim>\<open>transform([["a","b"]], seq_length=5)\<close> on it returns \<^verbatim>\<open>[[2,5,4,3,0]]\<close>.
\<close>

theorem end_to_end_example:
  assumes d: "distinct [token_pad base, token_unk base, token_bos base, token_eos base,
                        ''a'', ''b'']"
    and e: "vocab2idx base = []"
  shows "\<exists>p. build_vocab_generator (init base ''text'' 2 False) (Some example_corpus) = Inr p
      \<and> vocab2idx p = [(token_pad base, 0), (token_unk base, 1), (token_bos base, 2),
                       (token_eos base, 3), (''b'', 4), (''a'', 5)]
      \<and> snd (transform p [[''a'', ''b'']] (Some 5) None False) =
          Inr (TokenIds [[2, 5, 4, 3, 0]])"
proof -
  let ?fresh = "init base ''text'' 2 False"
  let ?built = "build_vocab ?fresh example_corpus"
  let ?seed = "[(token_pad base, 0), (token_unk base, 1), (token_bos base, 2),
                (token_eos base, 3::int)]"
  let ?v = "?seed @ [(''b'', 4), (''a'', 5)]"
  from d have seed: "initial_vocab_dic ?fresh = ?seed"
    by (intro text_seed) simp
  from d have ne:
    "''a'' \<noteq> token_pad base" "''a'' \<noteq> token_unk base"
    "''a'' \<noteq> token_bos base" "''a'' \<noteq> token_eos base"
    "''b'' \<noteq> token_pad base" "''b'' \<noteq> token_unk base"
    "''b'' \<noteq> token_bos base" "''b'' \<noteq> token_eos base"
    "token_bos base \<noteq> token_pad base" "token_bos base \<noteq> token_unk base"
    "token_eos base \<noteq> token_pad base" "token_eos base \<noteq> token_unk base"
    "token_eos base \<noteq> token_bos base" "token_unk base \<noteq> token_pad base"
    by auto
  have add: "add_tokens 2 ?seed [(''b'', 3), (''a'', 2)] = ?v"
    by (simp add: ne ne[symmetric])
  have v: "vocab2idx ?built = ?v"
    by (simp add: build_vocab_def Let_def seed example_sorted_counts add
        del: add_tokens.simps)
  have b: "build_vocab_generator ?fresh (Some example_corpus) = Inr ?built"
    using e by (simp add: build_vocab_generator_def)
  have f: "allow_unk ?built" "token_unk ?built = token_unk base"
    "token_bos ?built = token_bos base" "token_eos ?built = token_eos base"
    by (simp_all add: build_vocab_def Let_def init_def)
  have n: "numerize ?built [''a'', ''b''] = Inr [2, 5, 4, 3]"
    by (simp add: numerize_def Let_def v f dict_get_def ne ne[symmetric])
  have t: "snd (transform ?built [[''a'', ''b'']] (Some 5) None False) =
      Inr (TokenIds [[2, 5, 4, 3, 0]])"
    by (simp add: transform_def resolve_seq_length_def n pad_sequences_def)
  show ?thesis using b v t by auto
qed

theorem end_to_end_example_witness:
  "distinct [token_pad example_base, token_unk example_base, token_bos example_base,
             token_eos example_base, ''a'', ''b'']
   \<and> vocab2idx example_base = []
   \<and> (\<exists>p. build_vocab_generator (init example_base ''text'' 2 False) (Some example_corpus)
            = Inr p
      \<and> vocab2idx p = [(''[PAD]'', 0), (''[UNK]'', 1), (''[CLS]'', 2), (''[SEP]'', 3),
                       (''b'', 4), (''a'', 5)]
      \<and> snd (transform p [[''a'', ''b'']] (Some 5) None False) =
          Inr (TokenIds [[2, 5, 4, 3, 0]]))"
proof -
  have d: "distinct [token_pad example_base, token_unk example_base, token_bos example_base,
             token_eos example_base, ''a'', ''b'']"
    by (simp add: example_base_def)
  have e: "vocab2idx example_base = []"
    by (simp add: example_base_def)
  have t: "token_pad example_base = ''[PAD]''" "token_unk example_base = ''[UNK]''"
    "token_bos example_base = ''[CLS]''" "token_eos example_base = ''[SEP]''"
    by (simp_all add: example_base_def)
  show ?thesis using d e end_to_end_example [OF d e] unfolding t by blast
qed

subsection \<open>Building twice\<close>

text \<open>
  Claim C7. When a first call of \<open>build_vocab_generator\<close> has returned and left a
  non-empty \<open>vocab2idx\<close>, a second call (from the same corpus, or from any other
  argument) returns the processor as it was: \<open>vocab2idx\<close>, \<open>idx2vocab\<close> and every other
  field are unchanged.
\<close>

theorem build_twice_no_op:
  assumes "build_vocab_generator self (Some generator) = Inr self'"
    and "vocab2idx self' \<noteq> []"
  shows "build_vocab_generator self' (Some generator) = Inr self'
      \<and> build_vocab_generator self' generator' = Inr self'"
  using assms by (simp add: build_vocab_generator_def)

theorem build_twice_no_op_witness:
  "build_vocab_generator (init example_base ''text'' 2 False) (Some example_corpus)
     = Inr example_processor
   \<and> vocab2idx example_processor \<noteq> []
   \<and> build_vocab_generator example_processor (Some example_corpus) = Inr example_processor
   \<and> build_vocab_generator example_processor None = Inr example_processor"
proof -
  have n: "vocab2idx example_processor \<noteq> []"
    by (simp add: example_processor_def)
  show ?thesis
    using example_build_generator n build_twice_no_op [OF example_build_generator n]
    by blast
qed

subsection \<open>What the two transforms write\<close>

lemma fst_resolve_seq_length:
  "fst (resolve_seq_length self samples seq_length max_position) =
     self\<lparr>showed_seq_len_warning :=
            showed_seq_len_warning self \<or> (seq_length = None \<and> samples \<noteq> [])\<rparr>"
  by (cases samples)
    (auto simp: resolve_seq_length_def Let_def split: option.splits sum.splits)

lemma fst_transform:
  "fst (transform self samples seq_length max_position segment) =
     fst (resolve_seq_length self samples seq_length max_position)"
  by (simp add: transform_def split: prod.splits sum.splits)

text \<open>
  Claim C10. For every call, also one that raises, the processor after \<open>transform\<close> is
  the processor before it with at most the flag \<open>showed_seq_len_warning\<close> changed:
  \<open>vocab2idx\<close>, \<open>idx2vocab\<close>, \<open>build_in_vocab\<close>, \<open>min_count\<close>, \<open>allow_unk\<close>,
  \<open>build_vocab_from_labels\<close> and the remaining fields are as they were. The flag is
  true afterwards exactly when it was true before or this call inferred the length
  (no \<open>seq_length\<close> given, on a batch that is not empty), so it is never reset.
  \<open>inverse_transform\<close> leaves the whole processor as it was.
\<close>

theorem transform_frame:
  "fst (transform self samples seq_length max_position segment) =
     self\<lparr>showed_seq_len_warning :=
            showed_seq_len_warning self \<or> (seq_length = None \<and> samples \<noteq> [])\<rparr>
   \<and> vocab2idx (fst (transform self samples seq_length max_position segment))
       = vocab2idx self
   \<and> idx2vocab (fst (transform self samples seq_length max_position segment))
       = idx2vocab self
   \<and> build_in_vocab (fst (transform self samples seq_length max_position segment))
       = build_in_vocab self
   \<and> min_count (fst (transform self samples seq_length max_position segment))
       = min_count self
   \<and> allow_unk (fst (transform self samples seq_length max_position segment))
       = allow_unk self
   \<and> build_vocab_from_labels (fst (transform self samples seq_length max_position segment))
       = build_vocab_from_labels self
   \<and> fst (inverse_transform self labels lengths) = self"
  by (simp add: fst_transform fst_resolve_seq_length inverse_transform_def)

theorem transform_frame_witness:
  "fst (transform example_processor [[''a'', ''b'']] None None False) =
     example_processor\<lparr>showed_seq_len_warning := True\<rparr>
   \<and> fst (transform (example_processor\<lparr>showed_seq_len_warning := True\<rparr>)
            [[''a'', ''b'']] (Some 5) None False) =
     example_processor\<lparr>showed_seq_len_warning := True\<rparr>
   \<and> fst (inverse_transform example_processor [[2, 5, 4, 3, 0]] (Some [4]))
       = example_processor"
  using transform_frame [of example_processor "[[''a'', ''b'']]" None None False
      "[[2, 5, 4, 3, 0]]" "Some [4]"]
    transform_frame [of "example_processor\<lparr>showed_seq_len_warning := True\<rparr>"
      "[[''a'', ''b'']]" "Some 5" None False "[]" None]
  by simp

subsection \<open>Dictionaries as association lists\<close>

lemma update_fresh: "map_of al k = None \<Longrightarrow> AList.update k v al = al @ [(k, v)]"
  by (induction al) (auto split: if_splits)

lemma fold_update_distinct:
  "distinct (map fst (acc @ xs)) \<Longrightarrow> fold (\<lambda>(k, v) d. AList.update k v d) xs acc = acc @ xs"
proof (induction xs arbitrary: acc)
  case Nil
  then show ?case by simp
next
  case (Cons x xs)
  obtain k v where x: "x = (k, v)" by (cases x)
  from Cons.prems have "map_of acc k = None"
    by (auto simp: x map_of_eq_None_iff)
  then have u: "AList.update k v acc = acc @ [(k, v)]" by (rule update_fresh)
  from Cons.prems have "distinct (map fst ((acc @ [(k, v)]) @ xs))" by (simp add: x)
  from Cons.IH [OF this] show ?case by (simp add: x u)
qed

lemma dict_of_items_distinct: "distinct (map fst xs) \<Longrightarrow> dict_of_items xs = xs"
  using fold_update_distinct [of "[]" xs] by (simp add: dict_of_items_def)

lemma invert_dict_lookup:
  assumes "distinct (map snd d)" and "map_of d k = Some v"
  shows "map_of (invert_dict d) v = Some k"
proof -
  have m: "map fst (map (\<lambda>(k, v). (v, k)) d) = map snd d"
    by (induction d) auto
  from assms(1) have i: "invert_dict d = map (\<lambda>(k, v). (v, k)) d"
    unfolding invert_dict_def by (intro dict_of_items_distinct) (simp only: m)
  from assms(2) have "(k, v) \<in> set d" by (rule map_of_SomeD)
  then have "(v, k) \<in> set (map (\<lambda>(k, v). (v, k)) d)" by force
  with assms(1) m show ?thesis unfolding i
    by (metis map_of_is_SomeI)
qed


subsection \<open>The steps of \<open>transform\<close>\<close>

lemma example_fields:
  "token_pad example_processor = ''[PAD]''"
  "token_unk example_processor = ''[UNK]''"
  "token_bos example_processor = ''[CLS]''"
  "token_eos example_processor = ''[SEP]''"
  "vocab2idx example_processor = [(''[PAD]'', 0), (''[UNK]'', 1), (''[CLS]'', 2), (''[SEP]'', 3),
                   (''b'', 4), (''a'', 5)]"
  "idx2vocab example_processor = [(0, ''[PAD]''), (1, ''[UNK]''), (2, ''[CLS]''), (3, ''[SEP]''),
                   (4, ''b''), (5, ''a'')]"
  "allow_unk example_processor = True"
  by (simp_all add: example_processor_def)

lemma lookup_all_ok:
  "\<forall>t\<in>set seq. map_of vocab t \<noteq> None \<Longrightarrow>
   lookup_all vocab seq = Inr (map (\<lambda>t. the (map_of vocab t)) seq)"
  by (induction seq) auto

lemma lookup_all_Inr:
  "lookup_all vocab seq = Inr ids \<Longrightarrow>
   (\<forall>t\<in>set seq. map_of vocab t \<noteq> None) \<and> ids = map (\<lambda>t. the (map_of vocab t)) seq"
  by (induction seq arbitrary: ids) (auto split: option.splits sum.splits)

lemma lookup_all_fail:
  "find (\<lambda>t. map_of vocab t = None) seq = Some t \<Longrightarrow>
   lookup_all vocab seq = Inl (KeyError (TokenKey t))"
  by (induction seq) (auto split: option.splits sum.splits if_splits)

lemma numerize_samples_Inr:
  "numerize_samples self samples = Inr rows \<longleftrightarrow> map (numerize self) samples = map Inr rows"
proof (induction samples arbitrary: rows)
  case Nil
  show ?case by auto
next
  case (Cons s samples)
  show ?case
  proof (cases "numerize self s")
    case (Inl e)
    then show ?thesis by (cases rows) auto
  next
    case (Inr ids)
    show ?thesis
    proof (cases "numerize_samples self samples")
      case (Inl e)
      with Cons.IH have "\<And>rs. map (numerize self) samples \<noteq> map Inr rs" by simp
      with Inl Inr show ?thesis by (cases rows) auto
    next
      case r: (Inr rest)
      with Cons.IH [of rest] have m: "map (numerize self) samples = map Inr rest" by simp
      have inj: "\<And>a b :: int list list. (map Inr a :: (error + int list) list) = map Inr b \<longleftrightarrow> a = b"
        by (simp add: inj_map_eq_map)
      show ?thesis using Inr r m inj by (cases rows) auto
    qed
  qed
qed

lemma numerize_flag [simp]:
  "numerize (self\<lparr>showed_seq_len_warning := b\<rparr>) = numerize self"
  by (rule ext) (simp add: numerize_def Let_def split: option.splits)

lemma numerize_samples_flag [simp]:
  "numerize_samples (self\<lparr>showed_seq_len_warning := b\<rparr>) samples = numerize_samples self samples"
  by (induction samples) (auto split: sum.splits)

lemma py_max_map:
  "py_max (map f samples) =
     (if samples = [] then Inl ValueError else Inr (Max (f ` set samples)))"
proof (cases samples)
  case Nil
  then show ?thesis by simp
next
  case (Cons s ss)
  have "Max (set (f s # map f ss)) = fold max (map f ss) (f s)"
    by (rule Max.set_eq_fold)
  then show ?thesis by (simp add: Cons)
qed

lemma snd_resolve_seq_length:
  "snd (resolve_seq_length self samples seq_length max_position) =
     (case seq_length of
        Some n \<Rightarrow> Inr n
      | None \<Rightarrow>
          if samples = [] then Inl ValueError
          else Inr (let m = Max ((\<lambda>i. int (length i)) ` set samples) in
                    case max_position of
                      None \<Rightarrow> m
                    | Some mp \<Rightarrow> if mp \<noteq> 0 \<and> m > mp then mp else m))"
  by (simp add: resolve_seq_length_def py_max_map Let_def split: option.splits)

lemma snd_transform:
  "snd (transform self samples seq_length max_position segment) =
     (case snd (resolve_seq_length self samples seq_length max_position) of
        Inl e \<Rightarrow> Inl e
      | Inr n \<Rightarrow>
          (case numerize_samples self samples of
             Inl e \<Rightarrow> Inl e
           | Inr rows \<Rightarrow>
               (case pad_sequences rows n of
                  Inl e \<Rightarrow> Inl e
                | Inr ids \<Rightarrow>
                    Inr (if segment then TokenIdsSegmentIds ids (zeros_like ids)
                         else TokenIds ids))))"
proof -
  obtain p res where r: "resolve_seq_length self samples seq_length max_position = (p, res)"
    by (cases "resolve_seq_length self samples seq_length max_position")
  from fst_resolve_seq_length [of self samples seq_length max_position] r
  have "numerize_samples p samples = numerize_samples self samples"
    by simp
  then show ?thesis
    by (simp add: transform_def r split: sum.splits)
qed

lemma transform_Inr:
  assumes "snd (transform self samples seq_length max_position segment) = Inr r"
  shows "\<exists>n rows. snd (resolve_seq_length self samples seq_length max_position) = Inr n
      \<and> numerize_samples self samples = Inr rows
      \<and> pad_sequences rows n = Inr (token_ids_of r)"
proof -
  let ?res = "snd (resolve_seq_length self samples seq_length max_position)"
  from assms obtain n where n: "?res = Inr n"
    by (cases ?res) (simp_all add: snd_transform)
  from assms n obtain rows where rows: "numerize_samples self samples = Inr rows"
    by (cases "numerize_samples self samples") (simp_all add: snd_transform)
  from assms n rows obtain ids where ids: "pad_sequences rows n = Inr ids"
    by (cases "pad_sequences rows n") (simp_all add: snd_transform)
  from assms n rows ids have "token_ids_of r = ids"
    by (cases segment) (auto simp: snd_transform token_ids_of_def)
  with n rows ids show ?thesis by simp
qed

lemma pad_sequences_Inr:
  assumes "pad_sequences rows n = Inr ids"
  shows "0 \<le> n" and "length ids = length rows"
    and "\<forall>row\<in>set ids. int (length row) = n"
    and "\<forall>k<length rows. \<forall>j<length (rows ! k). j < length (ids ! k) \<longrightarrow>
           ids ! k ! j = rows ! k ! j"
proof -
  from assms show n: "0 \<le> n"
    by (simp add: pad_sequences_def split: if_splits)
  from assms n have ids:
    "ids = map (\<lambda>s. take (nat n) s @ replicate (nat n - length s) 0) rows"
    by (simp add: pad_sequences_def)
  show "length ids = length rows" by (simp add: ids)
  from n show "\<forall>row\<in>set ids. int (length row) = n" by (auto simp: ids)
  show "\<forall>k<length rows. \<forall>j<length (rows ! k). j < length (ids ! k) \<longrightarrow>
           ids ! k ! j = rows ! k ! j"
    by (simp add: ids nth_append)
qed

lemma numerize_Inr:
  assumes "numerize self seq = Inr ids"
  shows "length ids = length seq + 2"
    and "\<forall>j<length seq + 2.
           (\<forall>i. map_of (vocab2idx self) (wrapped self seq ! j) = Some i \<longrightarrow> ids ! j = i)
         \<and> (map_of (vocab2idx self) (wrapped self seq ! j) = None \<longrightarrow>
              allow_unk self \<and> map_of (vocab2idx self) (token_unk self) = Some (ids ! j))"
proof -
  let ?w = "wrapped self seq"
  have lw: "length ?w = length seq + 2" by (simp add: wrapped_def)
  show "length ids = length seq + 2"
  proof (cases "allow_unk self")
    case True
    with assms show ?thesis
      by (auto simp: numerize_def Let_def split: option.splits)
  next
    case False
    with assms have "lookup_all (vocab2idx self) ?w = Inr ids"
      by (simp add: numerize_def wrapped_def Let_def)
    from lookup_all_Inr [OF this] lw show ?thesis by simp
  qed
  show "\<forall>j<length seq + 2.
           (\<forall>i. map_of (vocab2idx self) (?w ! j) = Some i \<longrightarrow> ids ! j = i)
         \<and> (map_of (vocab2idx self) (?w ! j) = None \<longrightarrow>
              allow_unk self \<and> map_of (vocab2idx self) (token_unk self) = Some (ids ! j))"
  proof (cases "allow_unk self")
    case True
    with assms obtain u where u: "map_of (vocab2idx self) (token_unk self) = Some u"
      and ids: "ids = map (\<lambda>token. dict_get (vocab2idx self) token u) ?w"
      by (auto simp: numerize_def wrapped_def Let_def split: option.splits)
    show ?thesis
      using True u lw by (auto simp: ids dict_get_def)
  next
    case False
    with assms have "lookup_all (vocab2idx self) ?w = Inr ids"
      by (simp add: numerize_def wrapped_def Let_def)
    from lookup_all_Inr [OF this]
    have all: "\<forall>t\<in>set ?w. map_of (vocab2idx self) t \<noteq> None"
      and ids: "ids = map (\<lambda>t. the (map_of (vocab2idx self) t)) ?w"
      by simp_all
    show ?thesis
    proof (intro allI impI)
      fix j assume "j < length seq + 2"
      then have j: "j < length ?w" by (simp add: lw)
      then have "?w ! j \<in> set ?w" by (rule nth_mem)
      with all have "map_of (vocab2idx self) (?w ! j) \<noteq> None" by blast
      then show "(\<forall>i. map_of (vocab2idx self) (?w ! j) = Some i \<longrightarrow> ids ! j = i)
         \<and> (map_of (vocab2idx self) (?w ! j) = None \<longrightarrow>
              allow_unk self \<and> map_of (vocab2idx self) (token_unk self) = Some (ids ! j))"
        using j by (auto simp: ids)
    qed
  qed
qed

lemma decode_map:
  "\<forall>t\<in>set ts. map_of i2v (f t) = Some t \<Longrightarrow> decode i2v (map f ts) = Inr ts"
  by (induction ts) auto


subsection \<open>Inferred length\<close>

text \<open>
  The width that the source infers. For a batch that is not empty, with no \<open>seq_length\<close>
  and with \<open>max_position\<close> absent or positive, every row of a returned array has the
  length \<open>m\<close>, the largest length of the samples as they are passed, or \<open>max_position\<close>
  when that is smaller. The maximum is taken before BOS and EOS are added, so the wrapped
  form of the longest sample is two entries longer than its row.
\<close>

lemma inferred_width_of_source:
  assumes ne: "samples \<noteq> []"
    and mp: "max_position = None \<or> (\<exists>mp. 0 < mp \<and> max_position = Some mp)"
  shows "(\<forall>r. snd (transform self samples None max_position segment) = Inr r \<longrightarrow>
            length (token_ids_of r) = length samples
          \<and> (\<forall>row\<in>set (token_ids_of r). int (length row) =
                (let m = Max ((\<lambda>s. int (length s)) ` set samples) in
                 case max_position of None \<Rightarrow> m | Some mp \<Rightarrow> min m mp)))
       \<and> (allow_unk self \<and> map_of (vocab2idx self) (token_unk self) \<noteq> None \<longrightarrow>
            (\<exists>r. snd (transform self samples None max_position segment) = Inr r))"
proof -
  define m where "m = Max ((\<lambda>s. int (length s)) ` set samples)"
  define w where "w = (case max_position of None \<Rightarrow> m | Some mp \<Rightarrow> min m mp)"
  have res: "snd (resolve_seq_length self samples None max_position) = Inr w"
    using ne mp unfolding snd_resolve_seq_length w_def m_def [symmetric] Let_def
    by (auto simp: min_def)
  have m0: "0 \<le> m"
  proof -
    from ne obtain s where "s \<in> set samples" by (cases samples) auto
    then have "int (length s) \<le> m" unfolding m_def by (intro Max_ge) auto
    then show ?thesis by linarith
  qed
  then have w0: "0 \<le> w" using mp by (auto simp: w_def min_def)
  have shape: "length (token_ids_of r) = length samples
      \<and> (\<forall>row\<in>set (token_ids_of r). int (length row) = w)"
    if r: "snd (transform self samples None max_position segment) = Inr r" for r
  proof -
    from transform_Inr [OF r] res obtain rows
      where rows: "numerize_samples self samples = Inr rows"
        and pad: "pad_sequences rows w = Inr (token_ids_of r)"
      by auto
    from rows have "length rows = length samples"
      by (metis numerize_samples_Inr length_map)
    with pad_sequences_Inr(2,3) [OF pad] show ?thesis by simp
  qed
  have total: "\<exists>r. snd (transform self samples None max_position segment) = Inr r"
    if a: "allow_unk self" and u: "map_of (vocab2idx self) (token_unk self) \<noteq> None"
  proof -
    from u obtain ui where ui: "map_of (vocab2idx self) (token_unk self) = Some ui" by auto
    have "map (numerize self) samples =
        map Inr (map (\<lambda>s. map (\<lambda>token. dict_get (vocab2idx self) token ui) (wrapped self s)) samples)"
      using a ui by (simp add: numerize_def wrapped_def Let_def)
    then obtain rows where rows: "numerize_samples self samples = Inr rows"
      using numerize_samples_Inr by blast
    from w0 obtain ids where "pad_sequences rows w = Inr ids"
      by (simp add: pad_sequences_def)
    with res rows show ?thesis by (simp add: snd_transform)
  qed
  from shape total show ?thesis unfolding Let_def m_def [symmetric] w_def [symmetric]
    by blast
qed

text \<open>
  Claim C3. The claim fixes the inferred width as the largest length of the sequences
  after BOS and EOS are affixed. The source does not compute that: it takes the maximum
  over the samples as passed and affixes BOS and EOS afterwards, so the row of the longest
  sample loses its last token and EOS. On the processor of the worked corpus, the sample
  \<^verbatim>\<open>["a","b"]\<close> is wrapped to a sequence of length 4 and numerized to
  \<^verbatim>\<open>[2,5,4,3]\<close>, and \<^verbatim>\<open>transform([["a","b"]])\<close> with no \<open>seq_length\<close> returns
  \<^verbatim>\<open>[[2,5]]\<close>, of width 2, where the claim asks for width 4.
\<close>

theorem inferred_length_truncates:
  "snd (transform example_processor [[''a'', ''b'']] None None False) = Inr (TokenIds [[2, 5]])
   \<and> numerize example_processor [''a'', ''b''] = Inr [2, 5, 4, 3]
   \<and> map length (map (wrapped example_processor) [[''a'', ''b'']]) = [4]"
  by (simp add: transform_def resolve_seq_length_def numerize_def Let_def
      pad_sequences_def dict_get_def wrapped_def example_fields)

subsection \<open>Round trip\<close>

lemma numerize_all_present:
  assumes w: "\<forall>t\<in>set (wrapped self seq). map_of (vocab2idx self) t \<noteq> None"
    and u: "allow_unk self \<longrightarrow> map_of (vocab2idx self) (token_unk self) \<noteq> None"
  shows "numerize self seq = Inr (map (\<lambda>t. the (map_of (vocab2idx self) t)) (wrapped self seq))"
proof (cases "allow_unk self")
  case True
  with u obtain ui where ui: "map_of (vocab2idx self) (token_unk self) = Some ui" by auto
  have "map (\<lambda>token. dict_get (vocab2idx self) token ui) (wrapped self seq) =
      map (\<lambda>t. the (map_of (vocab2idx self) t)) (wrapped self seq)"
    using w by (intro map_cong) (auto simp: dict_get_def)
  with True ui show ?thesis
    by (simp add: numerize_def Let_def wrapped_def)
next
  case False
  with lookup_all_ok [OF w] show ?thesis
    by (simp add: numerize_def Let_def wrapped_def)
qed

lemma slice_from_1_wrapped:
  "slice_from_1 (b # T @ [e]) (int (length T) + 2) = T @ [e]"
  "slice_from_1 (b # T @ [e]) (int (length T) + 1) = T"
  by (simp_all add: slice_from_1_def nat_add_distrib)


text \<open>
  Claim C1, as stated, fails. \<open>inverse_transform\<close> keeps the positions
  \<open>1, ..., lengths[i] - 1\<close> of the decoded row, and in a row of \<open>len(T) + 2\<close> entries
  the last of these holds EOS: with \<^verbatim>\<open>lengths=[len(T)+2]\<close> the result is \<open>T\<close>
  followed by EOS.
\<close>

theorem round_trip_counterexample:
  "round_trip example_processor [''a'', ''b''] (int (length [''a'', ''b'']) + 2)
     = Inr [''a'', ''b'', ''[SEP]'']
   \<and> round_trip example_processor [''a'', ''b''] (int (length [''a'', ''b'']) + 2)
     \<noteq> Inr [''a'', ''b'']"
  by (simp add: round_trip_def transform_def resolve_seq_length_def numerize_def Let_def
      pad_sequences_def dict_get_def token_ids_of_def inverse_transform_def list_get_def
      slice_from_1_def example_fields)

text \<open>
  Claim C1, amended. Let every token of \<open>T\<close>, BOS and EOS have an index (and UNK too
  when \<open>allow_unk\<close> is true, since it is then looked up), let no two tokens share an
  index, and let \<open>idx2vocab\<close> be the inversion of \<open>vocab2idx\<close> that
  \<open>build_vocab_generator\<close> stores. Then the round trip with \<^verbatim>\<open>lengths=[len(T)+2]\<close>
  returns \<open>T\<close> followed by EOS, and the round trip with \<^verbatim>\<open>lengths=[len(T)+1]\<close>
  returns \<open>T\<close>.
\<close>

theorem round_trip_amended:
  assumes T: "\<forall>t\<in>set T. map_of (vocab2idx self) t \<noteq> None"
    and b: "map_of (vocab2idx self) (token_bos self) \<noteq> None"
    and e: "map_of (vocab2idx self) (token_eos self) \<noteq> None"
    and u: "allow_unk self \<longrightarrow> map_of (vocab2idx self) (token_unk self) \<noteq> None"
    and d: "distinct (map snd (vocab2idx self))"
    and i: "idx2vocab self = invert_dict (vocab2idx self)"
  shows "round_trip self T (int (length T) + 2) = Inr (T @ [token_eos self])
       \<and> round_trip self T (int (length T) + 1) = Inr T"
proof -
  let ?w = "wrapped self T"
  let ?enc = "\<lambda>t. the (map_of (vocab2idx self) t)"
  let ?row = "map ?enc ?w"
  from T b e have w: "\<forall>t\<in>set ?w. map_of (vocab2idx self) t \<noteq> None"
    by (auto simp: wrapped_def)
  have num: "numerize_samples self [T] = Inr [?row]"
    by (simp add: numerize_all_present [OF w u])
  have "length ?row = length T + 2" by (simp add: wrapped_def)
  then have pad: "pad_sequences [?row] (int (length T) + 2) = Inr [?row]"
    by (simp add: pad_sequences_def nat_add_distrib)
  have tr: "snd (transform self [T] (Some (int (length T) + 2)) None False) =
      Inr (TokenIds [?row])"
    by (simp add: snd_transform snd_resolve_seq_length num pad del: numerize_samples.simps)
  have "\<forall>t\<in>set ?w. map_of (idx2vocab self) (?enc t) = Some t"
  proof
    fix t assume "t \<in> set ?w"
    with w have "map_of (vocab2idx self) t = Some (?enc t)" by auto
    from invert_dict_lookup [OF d this] show "map_of (idx2vocab self) (?enc t) = Some t"
      by (simp add: i)
  qed
  then have dec: "decode (idx2vocab self) ?row = Inr ?w" by (rule decode_map)
  have inv: "snd (inverse_transform self [?row] (Some [n])) = Inr [slice_from_1 ?w n]" for n
    by (simp add: inverse_transform_def dec list_get_def)
  have rt: "round_trip self T n = Inr (slice_from_1 ?w n)" for n
    by (simp add: round_trip_def tr token_ids_of_def inv list_get_def)
  show ?thesis
    by (simp add: rt wrapped_def slice_from_1_wrapped)
qed

theorem round_trip_amended_witness:
  "map_of (vocab2idx example_processor) ''a'' \<noteq> None
   \<and> map_of (vocab2idx example_processor) ''b'' \<noteq> None
   \<and> map_of (vocab2idx example_processor) (token_bos example_processor) \<noteq> None
   \<and> map_of (vocab2idx example_processor) (token_eos example_processor) \<noteq> None
   \<and> allow_unk example_processor
   \<and> map_of (vocab2idx example_processor) (token_unk example_processor) \<noteq> None
   \<and> distinct (map snd (vocab2idx example_processor))
   \<and> idx2vocab example_processor = invert_dict (vocab2idx example_processor)
   \<and> round_trip example_processor [''a'', ''b''] 4 = Inr [''a'', ''b'', ''[SEP]'']
   \<and> round_trip example_processor [''a'', ''b''] 3 = Inr [''a'', ''b'']"
proof -
  have h: "\<forall>t\<in>set [''a'', ''b'']. map_of (vocab2idx example_processor) t \<noteq> None"
    "map_of (vocab2idx example_processor) (token_bos example_processor) \<noteq> None"
    "map_of (vocab2idx example_processor) (token_eos example_processor) \<noteq> None"
    "allow_unk example_processor \<longrightarrow>
        map_of (vocab2idx example_processor) (token_unk example_processor) \<noteq> None"
    "distinct (map snd (vocab2idx example_processor))"
    "idx2vocab example_processor = invert_dict (vocab2idx example_processor)"
    by (simp_all add: example_fields invert_dict_def dict_of_items_def)
  from round_trip_amended [OF h] h show ?thesis
    by (simp add: example_fields)
qed

subsection \<open>Unknown tokens\<close>

lemma find_append_if:
  "find P (xs @ ys) = (case find P xs of Some x \<Rightarrow> Some x | None \<Rightarrow> find P ys)"
  by (induction xs) auto

lemma numerize_samples_allow_unk:
  assumes "allow_unk self" and "map_of (vocab2idx self) (token_unk self) = Some ui"
  shows "\<exists>rows. numerize_samples self samples = Inr rows"
proof -
  have "map (numerize self) samples =
      map Inr (map (\<lambda>s. map (\<lambda>token. dict_get (vocab2idx self) token ui) (wrapped self s))
        samples)"
    using assms by (simp add: numerize_def wrapped_def Let_def)
  then show ?thesis using numerize_samples_Inr by blast
qed

lemma numerize_samples_fail:
  assumes na: "\<not> allow_unk self"
  shows "find (\<lambda>t. map_of (vocab2idx self) t = None) (concat (map (wrapped self) samples)) = Some t
    \<Longrightarrow> numerize_samples self samples = Inl (KeyError (TokenKey t))"
proof (induction samples)
  case Nil
  then show ?case by simp
next
  case (Cons s samples)
  let ?P = "\<lambda>t. map_of (vocab2idx self) t = None"
  have num: "numerize self s = lookup_all (vocab2idx self) (wrapped self s)"
    using na by (simp add: numerize_def wrapped_def Let_def)
  show ?case
  proof (cases "find ?P (wrapped self s)")
    case None
    then have "\<forall>t\<in>set (wrapped self s). map_of (vocab2idx self) t \<noteq> None"
      by (simp add: find_None_iff)
    from lookup_all_ok [OF this] obtain ids where ids: "numerize self s = Inr ids"
      by (simp add: num)
    from Cons.prems None
    have "find ?P (concat (map (wrapped self) samples)) = Some t"
      by (simp add: find_append_if)
    from Cons.IH [OF this] ids show ?thesis by simp
  next
    case (Some t')
    with Cons.prems have "t' = t" by (simp add: find_append_if)
    with Some lookup_all_fail [of "vocab2idx self" "wrapped self s" t] show ?thesis
      by (simp add: num)
  qed
qed


text \<open>
  Claim C8, as stated, fails in one point: the \<^verbatim>\<open>KeyError\<close> that a missing token
  raises carries the token and nothing else. Two batches whose unmappable token sits in
  the first and in the second sequence fail with the same error, so the error does not
  identify the sequence.
\<close>

theorem unknown_token_counterexample:
  "snd (transform (example_processor\<lparr>allow_unk := False\<rparr>) [[''x''], [''a'']] (Some 3) None False)
     = Inl (KeyError (TokenKey ''x''))
   \<and> snd (transform (example_processor\<lparr>allow_unk := False\<rparr>) [[''a''], [''x'']] (Some 3) None False)
     = Inl (KeyError (TokenKey ''x''))"
  by (simp add: transform_def resolve_seq_length_def numerize_def Let_def example_fields)

text \<open>
  Claim C8, amended. Whenever \<open>transform\<close> returns, each cell of the array that lies
  within the wrapped sequence holds the index of that token if the token is in the
  vocabulary, and otherwise \<open>allow_unk\<close> is true and the cell holds the index of UNK.
  When \<open>allow_unk\<close> is true and UNK has an index, \<open>transform\<close> never fails with a
  \<^verbatim>\<open>KeyError\<close>, and it returns for every \<open>seq_length\<close> that is given and not
  negative. When \<open>allow_unk\<close> is false and some token of a wrapped sequence is missing,
  \<open>transform\<close> returns no array: it fails with the \<^verbatim>\<open>KeyError\<close> of the first
  missing token, in the order of the batch.
\<close>

theorem unknown_token_policy:
  "(\<forall>r. snd (transform self samples seq_length max_position segment) = Inr r \<longrightarrow>
      length (token_ids_of r) = length samples
    \<and> (\<forall>k<length samples. \<forall>j<length (samples ! k) + 2. j < length (token_ids_of r ! k) \<longrightarrow>
         (\<forall>i. map_of (vocab2idx self) (wrapped self (samples ! k) ! j) = Some i \<longrightarrow>
              token_ids_of r ! k ! j = i)
       \<and> (map_of (vocab2idx self) (wrapped self (samples ! k) ! j) = None \<longrightarrow>
            allow_unk self
          \<and> map_of (vocab2idx self) (token_unk self) = Some (token_ids_of r ! k ! j))))
   \<and> (allow_unk self \<and> map_of (vocab2idx self) (token_unk self) \<noteq> None \<longrightarrow>
        (\<forall>key. snd (transform self samples seq_length max_position segment)
                 \<noteq> Inl (KeyError key))
      \<and> (\<forall>n\<ge>0. \<exists>r. snd (transform self samples (Some n) max_position segment) = Inr r))
   \<and> (\<not> allow_unk self \<longrightarrow>
        (\<forall>t. find (\<lambda>t. map_of (vocab2idx self) t = None)
                (concat (map (wrapped self) samples)) = Some t \<longrightarrow>
             snd (transform self samples seq_length max_position segment)
               = Inl (KeyError (TokenKey t))))"
proof (intro conjI allI impI)
  fix r
  assume r: "snd (transform self samples seq_length max_position segment) = Inr r"
  from transform_Inr [OF r] obtain n rows
    where rows: "numerize_samples self samples = Inr rows"
      and pad: "pad_sequences rows n = Inr (token_ids_of r)"
    by auto
  from rows have m: "map (numerize self) samples = map Inr rows"
    by (simp add: numerize_samples_Inr)
  then have lr: "length rows = length samples"
    by (metis length_map)
  with pad_sequences_Inr(2) [OF pad] show "length (token_ids_of r) = length samples"
    by simp
  fix k j
  assume k: "k < length samples" and j: "j < length (samples ! k) + 2"
    and jl: "j < length (token_ids_of r ! k)"
  from m k lr have nk: "numerize self (samples ! k) = Inr (rows ! k)"
    by (metis nth_map)
  from numerize_Inr(1) [OF nk] j have jr: "j < length (rows ! k)" by simp
  from pad_sequences_Inr(4) [OF pad] k lr jr jl
  have cell: "token_ids_of r ! k ! j = rows ! k ! j" by simp
  from numerize_Inr(2) [OF nk] j
  have c: "(\<forall>i. map_of (vocab2idx self) (wrapped self (samples ! k) ! j) = Some i \<longrightarrow>
              rows ! k ! j = i)
       \<and> (map_of (vocab2idx self) (wrapped self (samples ! k) ! j) = None \<longrightarrow>
            allow_unk self \<and> map_of (vocab2idx self) (token_unk self) = Some (rows ! k ! j))"
    by blast
  { fix i assume "map_of (vocab2idx self) (wrapped self (samples ! k) ! j) = Some i"
    with c cell show "token_ids_of r ! k ! j = i" by simp }
  { assume a: "map_of (vocab2idx self) (wrapped self (samples ! k) ! j) = None"
    with c show "allow_unk self" by simp
    from a c cell show "map_of (vocab2idx self) (token_unk self) = Some (token_ids_of r ! k ! j)"
      by simp }
next
  fix key
  assume a: "allow_unk self \<and> map_of (vocab2idx self) (token_unk self) \<noteq> None"
  then obtain rows where rows: "numerize_samples self samples = Inr rows"
    using numerize_samples_allow_unk [of self _ samples] by auto
  show "snd (transform self samples seq_length max_position segment) \<noteq> Inl (KeyError key)"
    by (auto simp: snd_transform snd_resolve_seq_length rows pad_sequences_def
        split: sum.splits option.splits if_splits)
next
  fix n :: int
  assume a: "allow_unk self \<and> map_of (vocab2idx self) (token_unk self) \<noteq> None"
    and n: "0 \<le> n"
  from a obtain rows where rows: "numerize_samples self samples = Inr rows"
    using numerize_samples_allow_unk [of self _ samples] by auto
  from n show "\<exists>r. snd (transform self samples (Some n) max_position segment) = Inr r"
    by (simp add: snd_transform snd_resolve_seq_length rows pad_sequences_def)
next
  fix t
  assume na: "\<not> allow_unk self"
    and f: "find (\<lambda>t. map_of (vocab2idx self) t = None)
                (concat (map (wrapped self) samples)) = Some t"
  from f have ne: "samples \<noteq> []" by auto
  from numerize_samples_fail [OF na f] ne
  show "snd (transform self samples seq_length max_position segment)
               = Inl (KeyError (TokenKey t))"
    by (simp add: snd_transform snd_resolve_seq_length split: option.splits)
qed

theorem unknown_token_policy_witness:
  "snd (transform example_processor [[''a'', ''x'']] (Some 5) None False)
     = Inr (TokenIds [[2, 5, 1, 3, 0]])
   \<and> snd (transform (example_processor\<lparr>allow_unk := False\<rparr>) [[''a'', ''x'']] (Some 5) None False)
     = Inl (KeyError (TokenKey ''x''))"
proof -
  let ?q = "example_processor\<lparr>allow_unk := False\<rparr>"
  have f: "find (\<lambda>t. map_of (vocab2idx ?q) t = None)
      (concat (map (wrapped ?q) [[''a'', ''x'']])) = Some ''x''"
    by (simp add: wrapped_def example_fields)
  have na: "\<not> allow_unk ?q" by simp
  from unknown_token_policy [of ?q "[[''a'', ''x'']]" "Some 5" None False] na f
  have 1: "snd (transform ?q [[''a'', ''x'']] (Some 5) None False) = Inl (KeyError (TokenKey ''x''))"
    by blast
  have 2: "snd (transform example_processor [[''a'', ''x'']] (Some 5) None False)
     = Inr (TokenIds [[2, 5, 1, 3, 0]])"
    by (simp add: transform_def resolve_seq_length_def numerize_def Let_def
      pad_sequences_def dict_get_def example_fields)
  from 1 2 show ?thesis by simp
qed

subsection \<open>Counting and sorting\<close>

lemma count_target_append:
  "count_target d (xs @ ys) = count_target (count_target d xs) ys"
  by (induction xs arbitrary: d) auto

lemma count_corpus_stream:
  "count_corpus fl d generator = count_target d (counted_stream fl generator)"
  by (induction generator arbitrary: d) (auto simp: counted_stream_def count_target_append)

lemma count_target_snoc:
  "count_target d (ts @ [t]) =
     AList.update t (dict_get (count_target d ts) t 0 + 1) (count_target d ts)"
  by (simp add: count_target_append)

lemma map_of_count_target:
  "map_of (count_target [] ts) t =
     (if t \<in> set ts then Some (int (count_list ts t)) else None)"
proof (induction ts arbitrary: t rule: rev_induct)
  case Nil
  show ?case by simp
next
  case (snoc x ts)
  show ?case
    by (simp add: count_target_snoc update_conv' snoc.IH dict_get_def)
qed

lemma distinct_count_target: "distinct (map fst (count_target [] ts))"
  by (induction ts rule: rev_induct) (simp_all add: count_target_snoc distinct_update)

lemma keys_count_target: "fst ` set (count_target [] ts) = set ts"
proof -
  have "dom (map_of (count_target [] ts)) = set ts"
    by (auto simp: map_of_count_target split: if_splits)
  then show ?thesis by (simp add: dom_map_of_conv_image_fst)
qed

lemma first_index_less: "x \<in> set xs \<Longrightarrow> first_index xs x < length xs"
  unfolding first_index_def by (induction xs) auto

lemma first_index_snoc_old: "x \<in> set xs \<Longrightarrow> first_index (xs @ [y]) x = first_index xs x"
  unfolding first_index_def by (induction xs) auto

lemma first_index_snoc_new: "x \<notin> set xs \<Longrightarrow> first_index (xs @ [x]) x = length xs"
  unfolding first_index_def by (induction xs) auto

lemma keys_first_encounter:
  "sorted_wrt (\<lambda>a b. first_index ts a < first_index ts b) (map fst (count_target [] ts))"
proof (induction ts rule: rev_induct)
  case Nil
  show ?case by simp
next
  case (snoc x ts)
  let ?K = "map fst (count_target [] ts)"
  have K: "fst ` set (count_target [] ts) = set ts" by (rule keys_count_target)
  have old: "sorted_wrt (\<lambda>a b. first_index (ts @ [x]) a < first_index (ts @ [x]) b) ?K"
    using snoc.IH
    by (rule sorted_wrt_mono_rel [rotated]) (simp add: K first_index_snoc_old)
  show ?case
  proof (cases "x \<in> set ts")
    case True
    with old show ?thesis by (simp add: count_target_snoc update_keys K)
  next
    case False
    have "\<forall>a\<in>set ?K. first_index (ts @ [x]) a < first_index (ts @ [x]) x"
      using False by (simp add: K first_index_snoc_old first_index_snoc_new first_index_less)
    with old False show ?thesis
      by (simp add: count_target_snoc update_keys K sorted_wrt_append)
  qed
qed

lemma insort_key_stable:
  assumes "sorted_wrt (\<lambda>a b. f a < f b \<or> (f a = f b \<and> Q a b)) ys"
    and "\<forall>y\<in>set ys. Q x y"
  shows "sorted_wrt (\<lambda>a b. f a < f b \<or> (f a = f b \<and> Q a b)) (insort_key f x ys)"
  using assms
proof (induction ys)
  case Nil
  then show ?case by simp
next
  case (Cons y ys)
  show ?case
  proof (cases "f x \<le> f y")
    case True
    with Cons.prems show ?thesis by (auto simp: less_le)
  next
    case False
    with Cons show ?thesis by (auto simp: set_insort_key)
  qed
qed

lemma sort_key_stable_wrt:
  "sorted_wrt Q xs \<Longrightarrow>
   sorted_wrt (\<lambda>a b. f a < f b \<or> (f a = f b \<and> Q a b)) (sort_key f xs)"
  by (induction xs) (auto intro: insort_key_stable)

subsection \<open>The vocabulary after the build\<close>

lemma learned_tokens_snoc_seed:
  assumes "\<forall>p\<in>set items. fst p \<noteq> t"
  shows "learned_tokens mc (v @ [(t, i)]) items = learned_tokens mc v items"
proof -
  have "filter (\<lambda>(token, token_count). map_of (v @ [(t, i)]) token = None \<and> token_count \<ge> mc) items
      = filter (\<lambda>(token, token_count). map_of v token = None \<and> token_count \<ge> mc) items"
    using assms by (intro filter_cong) (auto simp: map_add_def split: option.splits)
  then show ?thesis by (simp add: learned_tokens_def)
qed

lemma add_tokens_append:
  "distinct (map fst items) \<Longrightarrow>
   add_tokens mc v items =
     v @ zip (learned_tokens mc v items)
             (map int [length v..<length v + length (learned_tokens mc v items)])"
proof (induction items arbitrary: v)
  case Nil
  show ?case by (simp add: learned_tokens_def)
next
  case (Cons item items)
  obtain t c where item: "item = (t, c)" by (cases item)
  from Cons.prems have d: "distinct (map fst items)" and fresh: "\<forall>p\<in>set items. fst p \<noteq> t"
    by (auto simp: item)
  show ?case
  proof (cases "map_of v t = None \<and> c \<ge> mc")
    case True
    let ?v = "v @ [(t, int (length v))]"
    let ?L = "learned_tokens mc v items"
    have L: "learned_tokens mc ?v items = ?L"
      using fresh by (rule learned_tokens_snoc_seed)
    have L': "learned_tokens mc v (item # items) = t # ?L"
      using True by (simp add: learned_tokens_def item)
    have u: "AList.update t (int (length v)) v = ?v"
      using True by (simp add: update_fresh)
    have "add_tokens mc v (item # items) = add_tokens mc ?v items"
      using True by (simp add: item u)
    also have "\<dots> = ?v @ zip ?L (map int [length ?v..<length ?v + length ?L])"
      using Cons.IH [OF d, of ?v] by (simp only: L)
    also have "\<dots> = v @ zip (t # ?L) (map int [length v..<length v + length (t # ?L)])"
    proof -
      have "[length v..<length v + length (t # ?L)] =
          length v # [length ?v..<length ?v + length ?L]"
        by (subst upt_rec) simp
      then show ?thesis by simp
    qed
    finally show ?thesis by (simp only: L')
  next
    case False
    then have L: "learned_tokens mc v (item # items) = learned_tokens mc v items"
      by (auto simp: learned_tokens_def item)
    from False have "add_tokens mc v (item # items) = add_tokens mc v items"
      by (auto simp: item)
    with Cons.IH [OF d, of v] show ?thesis by (simp only: L)
  qed
qed

lemma distinct_keys_sorted_by_count:
  "distinct (map fst items) \<Longrightarrow> distinct (map fst (sorted_by_count items))"
  by (simp add: sorted_by_count_def distinct_map)

lemma vocab2idx_build_vocab:
  "vocab2idx (build_vocab self g) =
     initial_vocab_dic self @
     zip (learned_tokens (min_count self) (initial_vocab_dic self)
            (sorted_by_count
               (count_target [] (counted_stream (build_vocab_from_labels self) g))))
         (map int [length (initial_vocab_dic self)..<
                   length (initial_vocab_dic self) +
                   length (learned_tokens (min_count self) (initial_vocab_dic self)
                     (sorted_by_count
                        (count_target [] (counted_stream (build_vocab_from_labels self) g))))])"
proof -
  let ?items = "sorted_by_count
      (count_target [] (counted_stream (build_vocab_from_labels self) g))"
  have d: "distinct (map fst ?items)"
    by (intro distinct_keys_sorted_by_count distinct_count_target)
  then have "dict_of_items ?items = ?items" by (rule dict_of_items_distinct)
  then have "vocab2idx (build_vocab self g) =
      add_tokens (min_count self) (initial_vocab_dic self) ?items"
    by (simp add: build_vocab_def Let_def count_corpus_stream)
  with add_tokens_append [OF d] show ?thesis by simp
qed

lemma build_vocab_other_fields:
  "idx2vocab (build_vocab self g) = invert_dict (vocab2idx (build_vocab self g))"
  "initial_vocab_dic (build_vocab self g) = vocab2idx (build_vocab self g)"
  "token_pad (build_vocab self g) = token_pad self"
  "token_unk (build_vocab self g) = token_unk self"
  "token_bos (build_vocab self g) = token_bos self"
  "token_eos (build_vocab self g) = token_eos self"
  "allow_unk (build_vocab self g) = allow_unk self"
  "min_count (build_vocab self g) = min_count self"
  by (simp_all add: build_vocab_def Let_def)

lemma set_count_target:
  "(t, c) \<in> set (count_target [] ts) \<longleftrightarrow> t \<in> set ts \<and> c = int (count_list ts t)"
proof -
  have "(t, c) \<in> set (count_target [] ts) \<longleftrightarrow> map_of (count_target [] ts) t = Some c"
    using distinct_count_target [of ts] by simp
  then show ?thesis by (auto simp: map_of_count_target)
qed

lemma set_learned_tokens:
  "set (learned_tokens mc seed (sorted_by_count (count_target [] ts))) =
     {t \<in> set ts. map_of seed t = None \<and> mc \<le> int (count_list ts t)}"
  by (auto simp: learned_tokens_def sorted_by_count_def set_count_target image_iff)

lemma distinct_learned_tokens:
  "distinct (learned_tokens mc seed (sorted_by_count (count_target [] ts)))"
  unfolding learned_tokens_def
  by (intro distinct_map_filter distinct_keys_sorted_by_count distinct_count_target)

lemma sorted_learned_tokens:
  "sorted_wrt (\<lambda>a b. count_list ts b < count_list ts a
                \<or> (count_list ts a = count_list ts b \<and> first_index ts a < first_index ts b))
     (learned_tokens mc seed (sorted_by_count (count_target [] ts)))"
proof -
  let ?Q = "\<lambda>p q :: string \<times> int. first_index ts (fst p) < first_index ts (fst q)"
  let ?f = "\<lambda>item :: string \<times> int. - snd item"
  let ?P = "\<lambda>(token, token_count). map_of seed token = None \<and> token_count \<ge> mc"
  have "sorted_wrt ?Q (count_target [] ts)"
    using keys_first_encounter [of ts] by (simp add: sorted_wrt_map)
  then have "sorted_wrt (\<lambda>a b. ?f a < ?f b \<or> (?f a = ?f b \<and> ?Q a b))
      (sort_key ?f (count_target [] ts))"
    by (rule sort_key_stable_wrt)
  then have s: "sorted_wrt (\<lambda>a b. ?f a < ?f b \<or> (?f a = ?f b \<and> ?Q a b))
      (filter ?P (sorted_by_count (count_target [] ts)))"
    unfolding sorted_by_count_def by (rule sorted_wrt_filter)
  have "sorted_wrt (\<lambda>p q. count_list ts (fst q) < count_list ts (fst p)
                \<or> (count_list ts (fst p) = count_list ts (fst q) \<and> ?Q p q))
      (filter ?P (sorted_by_count (count_target [] ts)))"
    using s
  proof (rule sorted_wrt_mono_rel [rotated])
    fix p q
    assume p: "p \<in> set (filter ?P (sorted_by_count (count_target [] ts)))"
      and q: "q \<in> set (filter ?P (sorted_by_count (count_target [] ts)))"
      and r: "?f p < ?f q \<or> (?f p = ?f q \<and> ?Q p q)"
    from p have "(fst p, snd p) \<in> set (count_target [] ts)"
      by (simp add: sorted_by_count_def)
    then have "snd p = int (count_list ts (fst p))"
      by (simp only: set_count_target)
    moreover from q have "(fst q, snd q) \<in> set (count_target [] ts)"
      by (simp add: sorted_by_count_def)
    then have "snd q = int (count_list ts (fst q))"
      by (simp only: set_count_target)
    ultimately show "count_list ts (fst q) < count_list ts (fst p)
                \<or> (count_list ts (fst p) = count_list ts (fst q) \<and> ?Q p q)"
      using r by auto
  qed
  then show ?thesis by (simp add: learned_tokens_def sorted_wrt_map)
qed

lemma learned_index:
  assumes d: "distinct L" and f: "\<forall>t\<in>set L. map_of seed t = None" and k: "k < length L"
  shows "map_of (seed @ zip L (map int [n..<n + length L])) (L ! k) = Some (int (n + k))"
proof -
  from k have "L ! k \<in> set L" by simp
  with f have s: "map_of seed (L ! k) = None" by blast
  have "map_of (zip L (map int [n..<n + length L])) (L ! k) = Some (map int [n..<n + length L] ! k)"
    using d k by (intro map_of_zip_nth) simp_all
  with s k show ?thesis by (simp add: map_add_def)
qed

lemma learned_absent:
  assumes "t \<notin> set L" and "map_of seed t = None"
  shows "map_of (seed @ zip L (map int [n..<n + length L])) t = None"
  using assms by (simp add: map_add_def)

lemma invert_dict_inverse:
  assumes k: "distinct (map fst d)" and v: "distinct (map snd d)"
  shows "map_of (invert_dict d) i = Some t \<longleftrightarrow> map_of d t = Some i"
proof -
  have m: "map fst (map (\<lambda>(k, v). (v, k)) d) = map snd d"
    by (induction d) auto
  from v have inv: "invert_dict d = map (\<lambda>(k, v). (v, k)) d"
    unfolding invert_dict_def by (intro dict_of_items_distinct) (simp only: m)
  from v have dk: "distinct (map fst (map (\<lambda>(k, v). (v, k)) d))" by (simp only: m)
  have "map_of (invert_dict d) i = Some t \<longleftrightarrow> (i, t) \<in> set (map (\<lambda>(k, v). (v, k)) d)"
    unfolding inv using dk by (rule map_of_eq_Some_iff)
  also have "\<dots> \<longleftrightarrow> (t, i) \<in> set d" by force
  also have "\<dots> \<longleftrightarrow> map_of d t = Some i"
    using k by simp
  finally show ?thesis .
qed


text \<open>
  Claim C4. Let the reserved tokens PAD, UNK, BOS and EOS differ from one another and let
  the base class have left the vocabulary empty. Then, for every corpus, every
  \<open>min_count\<close> and either counting source, \<open>build_vocab_generator\<close> on a processor
  constructed in mode \<^verbatim>\<open>"text"\<close> returns a processor whose vocabulary maps PAD to 0,
  UNK to 1, BOS to 2 and EOS to 3, has no key twice and no index twice, has exactly the
  indices \<open>0, ..., |V| - 1\<close>, and whose \<open>idx2vocab\<close> is the exact inverse of \<open>vocab2idx\<close>.
\<close>

theorem reserved_and_contiguous:
  assumes d: "distinct [token_pad base, token_unk base, token_bos base, token_eos base]"
    and e: "vocab2idx base = []"
  shows "\<exists>p. build_vocab_generator (init base ''text'' mc fl) (Some g) = Inr p
     \<and> map_of (vocab2idx p) (token_pad p) = Some 0
     \<and> map_of (vocab2idx p) (token_unk p) = Some 1
     \<and> map_of (vocab2idx p) (token_bos p) = Some 2
     \<and> map_of (vocab2idx p) (token_eos p) = Some 3
     \<and> distinct (map fst (vocab2idx p))
     \<and> distinct (map snd (vocab2idx p))
     \<and> set (map snd (vocab2idx p)) = {0..<int (length (vocab2idx p))}
     \<and> (\<forall>t i. map_of (idx2vocab p) i = Some t \<longleftrightarrow> map_of (vocab2idx p) t = Some i)"
proof -
  let ?self = "init base ''text'' mc fl"
  let ?p = "build_vocab ?self g"
  define seed where "seed = initial_vocab_dic ?self"
  define L where "L = learned_tokens (min_count ?self) seed
      (sorted_by_count (count_target [] (counted_stream (build_vocab_from_labels ?self) g)))"
  have seed: "seed = [(token_pad base, 0), (token_unk base, 1), (token_bos base, 2),
                (token_eos base, 3)]"
    unfolding seed_def using d by (rule text_seed)
  have b: "build_vocab_generator ?self (Some g) = Inr ?p"
    using e by (simp add: build_vocab_generator_def)
  have v: "vocab2idx ?p = seed @ zip L (map int [length seed..<length seed + length L])"
    unfolding L_def seed_def by (rule vocab2idx_build_vocab)
  have f: "\<forall>t\<in>set L. map_of seed t = None"
    unfolding L_def by (simp add: set_learned_tokens)
  have dL: "distinct L" unfolding L_def by (rule distinct_learned_tokens)
  from d have ne:
    "token_bos base \<noteq> token_pad base" "token_bos base \<noteq> token_unk base"
    "token_eos base \<noteq> token_pad base" "token_eos base \<noteq> token_unk base"
    "token_eos base \<noteq> token_bos base" "token_unk base \<noteq> token_pad base"
    by auto
  have tok: "token_pad ?p = token_pad base" "token_unk ?p = token_unk base"
    "token_bos ?p = token_bos base" "token_eos ?p = token_eos base"
    by (simp_all add: build_vocab_other_fields)
  have s0: "map_of seed (token_pad base) = Some 0"
    and s1: "map_of seed (token_unk base) = Some 1"
    and s2: "map_of seed (token_bos base) = Some 2"
    and s3: "map_of seed (token_eos base) = Some 3"
    by (simp_all add: seed ne)
  have r0: "map_of (vocab2idx ?p) (token_pad ?p) = Some 0"
    and r1: "map_of (vocab2idx ?p) (token_unk ?p) = Some 1"
    and r2: "map_of (vocab2idx ?p) (token_bos ?p) = Some 2"
    and r3: "map_of (vocab2idx ?p) (token_eos ?p) = Some 3"
    unfolding v tok by (simp_all add: map_add_def s0 s1 s2 s3)
  have keys: "map fst (vocab2idx ?p) = map fst seed @ L"
    unfolding v by simp
  have disj: "set (map fst seed) \<inter> set L = {}"
  proof -
    have "t \<notin> set (map fst seed)" if "t \<in> set L" for t
    proof -
      from f that have "map_of seed t = None" by blast
      then show ?thesis by (simp add: map_of_eq_None_iff)
    qed
    then show ?thesis by blast
  qed
  from d have "distinct (map fst seed)" by (simp add: seed)
  with disj dL have dk: "distinct (map fst (vocab2idx ?p))"
    unfolding keys by (simp only: distinct_append)
  have sv0: "map snd seed = map int [0..<length seed]"
    by (simp add: seed upt_rec)
  have "[0..<length seed + length L] = [0..<length seed] @ [length seed..<length seed + length L]"
    by (rule upt_add_eq_append) simp
  then have "map int [0..<length seed + length L] =
      map snd seed @ map int [length seed..<length seed + length L]"
    by (simp only: sv0 map_append)
  then have vals: "map snd (vocab2idx ?p) = map int [0..<length (vocab2idx ?p)]"
    unfolding v by simp
  have dv: "distinct (map snd (vocab2idx ?p))"
    unfolding vals by (simp add: distinct_map)
  have sv: "set (map snd (vocab2idx ?p)) = {0..<int (length (vocab2idx ?p))}"
    unfolding vals by (simp add: image_int_atLeastLessThan)
  have inv: "map_of (idx2vocab ?p) i = Some t \<longleftrightarrow> map_of (vocab2idx ?p) t = Some i" for t i
    unfolding build_vocab_other_fields(1) using dk dv by (rule invert_dict_inverse)
  from b r0 r1 r2 r3 dk dv sv inv show ?thesis by blast
qed

theorem reserved_and_contiguous_witness:
  "distinct [token_pad example_base, token_unk example_base, token_bos example_base,
             token_eos example_base]
   \<and> vocab2idx example_base = []
   \<and> (\<exists>p. build_vocab_generator (init example_base ''text'' 2 False) (Some example_corpus)
            = Inr p
     \<and> map_of (vocab2idx p) (token_pad p) = Some 0
     \<and> map_of (vocab2idx p) (token_unk p) = Some 1
     \<and> map_of (vocab2idx p) (token_bos p) = Some 2
     \<and> map_of (vocab2idx p) (token_eos p) = Some 3
     \<and> distinct (map fst (vocab2idx p))
     \<and> distinct (map snd (vocab2idx p))
     \<and> set (map snd (vocab2idx p)) = {0..<int (length (vocab2idx p))}
     \<and> (\<forall>t i. map_of (idx2vocab p) i = Some t \<longleftrightarrow> map_of (vocab2idx p) t = Some i))"
proof -
  have d: "distinct [token_pad example_base, token_unk example_base, token_bos example_base,
             token_eos example_base]"
    by (simp add: example_base_def)
  have e: "vocab2idx example_base = []"
    by (simp add: example_base_def)
  from reserved_and_contiguous [OF d e, of 2 False example_corpus] d e
  show ?thesis by blast
qed


text \<open>
  Claim C5. Let the vocabulary be empty before the build, and let \<open>t\<close> be a token that
  is not a key of the seed dictionary (not reserved). Let \<open>min_count\<close> be at least 1, as
  the interface asks, or let \<open>t\<close> occur in the counted stream. Then
  \<open>build_vocab_generator\<close> returns a processor in whose vocabulary \<open>t\<close> is absent when
  \<open>t\<close> occurs \<open>min_count - 1\<close> times or fewer, and present when it occurs \<open>min_count\<close>
  times or more.
\<close>

theorem frequency_threshold:
  assumes e: "vocab2idx self = []"
    and r: "map_of (initial_vocab_dic self) t = None"
    and m: "1 \<le> min_count self \<or> t \<in> set (counted_stream (build_vocab_from_labels self) g)"
  shows "\<exists>p. build_vocab_generator self (Some g) = Inr p
     \<and> (int (count_list (counted_stream (build_vocab_from_labels self) g) t) \<le> min_count self - 1
          \<longrightarrow> map_of (vocab2idx p) t = None)
     \<and> (min_count self \<le> int (count_list (counted_stream (build_vocab_from_labels self) g) t)
          \<longrightarrow> map_of (vocab2idx p) t \<noteq> None)"
proof -
  let ?ts = "counted_stream (build_vocab_from_labels self) g"
  let ?seed = "initial_vocab_dic self"
  let ?L = "learned_tokens (min_count self) ?seed (sorted_by_count (count_target [] ?ts))"
  let ?n = "length ?seed"
  have b: "build_vocab_generator self (Some g) = Inr (build_vocab self g)"
    using e by (simp add: build_vocab_generator_def)
  have v: "vocab2idx (build_vocab self g) = ?seed @ zip ?L (map int [?n..<?n + length ?L])"
    by (rule vocab2idx_build_vocab)
  have low: "map_of (vocab2idx (build_vocab self g)) t = None"
    if "int (count_list ?ts t) \<le> min_count self - 1"
  proof -
    from that have "t \<notin> set ?L" by (simp add: set_learned_tokens)
    with r show ?thesis unfolding v by (intro learned_absent)
  qed
  have high: "map_of (vocab2idx (build_vocab self g)) t \<noteq> None"
    if c: "min_count self \<le> int (count_list ?ts t)"
  proof -
    from m c have "t \<in> set ?ts"
      using count_list_0_iff [of ?ts t] by auto
    with r c have "t \<in> set ?L" by (simp add: set_learned_tokens)
    then obtain k where k: "k < length ?L" and t: "t = ?L ! k"
      by (auto simp: in_set_conv_nth)
    have f: "\<forall>t\<in>set ?L. map_of ?seed t = None" by (simp add: set_learned_tokens)
    from learned_index [OF distinct_learned_tokens f k, of ?n] show ?thesis
      unfolding v t by simp
  qed
  from b low high show ?thesis by simp
qed


theorem frequency_threshold_witness:
  "vocab2idx (init example_base ''text'' 3 False) = []
   \<and> map_of (initial_vocab_dic (init example_base ''text'' 3 False)) ''a'' = None
   \<and> map_of (initial_vocab_dic (init example_base ''text'' 3 False)) ''b'' = None
   \<and> 1 \<le> min_count (init example_base ''text'' 3 False)
   \<and> int (count_list (counted_stream False example_corpus) ''a'')
        = min_count (init example_base ''text'' 3 False) - 1
   \<and> int (count_list (counted_stream False example_corpus) ''b'')
        = min_count (init example_base ''text'' 3 False)
   \<and> (\<exists>p. build_vocab_generator (init example_base ''text'' 3 False) (Some example_corpus)
            = Inr p
         \<and> map_of (vocab2idx p) ''a'' = None
         \<and> map_of (vocab2idx p) ''b'' \<noteq> None)"
proof -
  let ?self = "init example_base ''text'' 3 False"
  have e: "vocab2idx ?self = []" by (simp add: example_base_def)
  have seed: "initial_vocab_dic ?self =
      [(''[PAD]'', 0), (''[UNK]'', 1), (''[CLS]'', 2), (''[SEP]'', 3)]"
    by (simp add: init_def Let_def example_base_def dict_of_items_def)
  have ra: "map_of (initial_vocab_dic ?self) ''a'' = None"
    and rb: "map_of (initial_vocab_dic ?self) ''b'' = None"
    by (simp_all add: seed)
  have m: "1 \<le> min_count ?self" by simp
  have fl: "build_vocab_from_labels ?self = False" by simp
  have ca: "int (count_list (counted_stream False example_corpus) ''a'') = min_count ?self - 1"
    and cb: "int (count_list (counted_stream False example_corpus) ''b'') = min_count ?self"
    by (simp_all add: counted_stream_def example_corpus_def)
  from frequency_threshold [OF e ra, of example_corpus] m ca
  obtain p where p: "build_vocab_generator ?self (Some example_corpus) = Inr p"
    and a: "map_of (vocab2idx p) ''a'' = None"
    unfolding fl by auto
  from frequency_threshold [OF e rb, of example_corpus] m cb p
  have b: "map_of (vocab2idx p) ''b'' \<noteq> None"
    unfolding fl by auto
  from e ra rb m ca cb p a b show ?thesis by blast
qed


text \<open>
  Claim C6. Let the vocabulary be empty before the build, and let \<open>s\<close> and \<open>t\<close> be
  tokens that are not reserved, that occur in the counted stream, and whose counts reach
  \<open>min_count\<close>. Then both get an index, and the index of \<open>s\<close> is below the index of
  \<open>t\<close> exactly when \<open>s\<close> occurs more often than \<open>t\<close>, or as often and \<open>s\<close> is first
  encountered before \<open>t\<close>.
\<close>

theorem stable_tie_break:
  assumes e: "vocab2idx self = []"
    and rs: "map_of (initial_vocab_dic self) s = None"
    and rt: "map_of (initial_vocab_dic self) t = None"
    and ss: "s \<in> set (counted_stream (build_vocab_from_labels self) g)"
    and st: "t \<in> set (counted_stream (build_vocab_from_labels self) g)"
    and cs: "min_count self \<le> int (count_list (counted_stream (build_vocab_from_labels self) g) s)"
    and ct: "min_count self \<le> int (count_list (counted_stream (build_vocab_from_labels self) g) t)"
  shows "\<exists>p i j. build_vocab_generator self (Some g) = Inr p
     \<and> map_of (vocab2idx p) s = Some i \<and> map_of (vocab2idx p) t = Some j
     \<and> (i < j \<longleftrightarrow>
          count_list (counted_stream (build_vocab_from_labels self) g) t
            < count_list (counted_stream (build_vocab_from_labels self) g) s
        \<or> (count_list (counted_stream (build_vocab_from_labels self) g) s
             = count_list (counted_stream (build_vocab_from_labels self) g) t
           \<and> first_index (counted_stream (build_vocab_from_labels self) g) s
             < first_index (counted_stream (build_vocab_from_labels self) g) t))"
proof -
  let ?ts = "counted_stream (build_vocab_from_labels self) g"
  let ?seed = "initial_vocab_dic self"
  let ?L = "learned_tokens (min_count self) ?seed (sorted_by_count (count_target [] ?ts))"
  let ?n = "length ?seed"
  let ?R = "\<lambda>a b. count_list ?ts b < count_list ?ts a
                \<or> (count_list ?ts a = count_list ?ts b \<and> first_index ?ts a < first_index ?ts b)"
  have b: "build_vocab_generator self (Some g) = Inr (build_vocab self g)"
    using e by (simp add: build_vocab_generator_def)
  have v: "vocab2idx (build_vocab self g) = ?seed @ zip ?L (map int [?n..<?n + length ?L])"
    by (rule vocab2idx_build_vocab)
  have f: "\<forall>t\<in>set ?L. map_of ?seed t = None" by (simp add: set_learned_tokens)
  have d: "distinct ?L" by (rule distinct_learned_tokens)
  have sorted: "sorted_wrt ?R ?L" by (rule sorted_learned_tokens)
  from rs ss cs have "s \<in> set ?L" by (simp add: set_learned_tokens)
  then obtain k where k: "k < length ?L" and sk: "s = ?L ! k"
    by (auto simp: in_set_conv_nth)
  from rt st ct have "t \<in> set ?L" by (simp add: set_learned_tokens)
  then obtain l where l: "l < length ?L" and tl: "t = ?L ! l"
    by (auto simp: in_set_conv_nth)
  have idx_s: "map_of (vocab2idx (build_vocab self g)) s = Some (int (?n + k))"
    unfolding v sk by (rule learned_index [OF d f k])
  have idx_t: "map_of (vocab2idx (build_vocab self g)) t = Some (int (?n + l))"
    unfolding v tl by (rule learned_index [OF d f l])
  have "k < l \<longleftrightarrow> ?R s t"
  proof
    assume "k < l"
    from sorted_wrt_nth_less [OF sorted this l] show "?R s t" by (simp add: sk tl)
  next
    assume R: "?R s t"
    show "k < l"
    proof (rule ccontr)
      assume "\<not> k < l"
      then consider "k = l" | "l < k" by linarith
      then show False
      proof cases
        case 1
        with R show False by (simp add: sk tl)
      next
        case 2
        from sorted_wrt_nth_less [OF sorted 2 k] have "?R t s" by (simp add: sk tl)
        with R show False by auto
      qed
    qed
  qed
  then have "int (?n + k) < int (?n + l) \<longleftrightarrow> ?R s t" by simp
  with b idx_s idx_t show ?thesis by blast
qed

theorem stable_tie_break_witness:
  "vocab2idx (init example_base ''text'' 2 False) = []
   \<and> map_of (initial_vocab_dic (init example_base ''text'' 2 False)) ''x'' = None
   \<and> map_of (initial_vocab_dic (init example_base ''text'' 2 False)) ''y'' = None
   \<and> count_list (counted_stream False [([''x'', ''y'', ''y'', ''x''], [''O''])]) ''x'' = 2
   \<and> count_list (counted_stream False [([''x'', ''y'', ''y'', ''x''], [''O''])]) ''y'' = 2
   \<and> first_index (counted_stream False [([''x'', ''y'', ''y'', ''x''], [''O''])]) ''x'' = 0
   \<and> first_index (counted_stream False [([''x'', ''y'', ''y'', ''x''], [''O''])]) ''y'' = 1
   \<and> (\<exists>p i j. build_vocab_generator (init example_base ''text'' 2 False)
                 (Some [([''x'', ''y'', ''y'', ''x''], [''O''])]) = Inr p
         \<and> map_of (vocab2idx p) ''x'' = Some i \<and> map_of (vocab2idx p) ''y'' = Some j
         \<and> i < j)"
proof -
  let ?self = "init example_base ''text'' 2 False"
  let ?g = "[([''x'', ''y'', ''y'', ''x''], [''O''])]"
  have e: "vocab2idx ?self = []" by (simp add: example_base_def)
  have seed: "initial_vocab_dic ?self =
      [(''[PAD]'', 0), (''[UNK]'', 1), (''[CLS]'', 2), (''[SEP]'', 3)]"
    by (simp add: init_def Let_def example_base_def dict_of_items_def)
  have rx: "map_of (initial_vocab_dic ?self) ''x'' = None"
    and ry: "map_of (initial_vocab_dic ?self) ''y'' = None"
    by (simp_all add: seed)
  have fl: "build_vocab_from_labels ?self = False" by simp
  have st: "counted_stream False ?g = [''x'', ''y'', ''y'', ''x'']"
    by (simp add: counted_stream_def)
  have cx: "count_list (counted_stream False ?g) ''x'' = 2"
    and cy: "count_list (counted_stream False ?g) ''y'' = 2"
    and fx: "first_index (counted_stream False ?g) ''x'' = 0"
    and fy: "first_index (counted_stream False ?g) ''y'' = 1"
    by (simp_all add: st first_index_def)
  have sx: "''x'' \<in> set (counted_stream (build_vocab_from_labels ?self) ?g)"
    and sy: "''y'' \<in> set (counted_stream (build_vocab_from_labels ?self) ?g)"
    by (simp_all add: st)
  have mx: "min_count ?self \<le> int (count_list (counted_stream (build_vocab_from_labels ?self) ?g) ''x'')"
    and my: "min_count ?self \<le> int (count_list (counted_stream (build_vocab_from_labels ?self) ?g) ''y'')"
    unfolding fl cx cy by simp_all
  from stable_tie_break [OF e rx ry sx sy mx my]
  obtain p i j where "build_vocab_generator ?self (Some ?g) = Inr p"
    "map_of (vocab2idx p) ''x'' = Some i" "map_of (vocab2idx p) ''y'' = Some j" "i < j"
    unfolding fl cx cy fx fy by auto
  with e rx ry cx cy fx fy show ?thesis by blast
qed

end
